theory Spec2Isabelle
  imports Main "HOL-Library.Multiset"
begin

section \<open>Signals and slots (signals.hpp)\<close>

subsection \<open>Data model\<close>

text \<open>
  \<^verbatim>\<open>enum emit_type{synch,asynch};\<close> The delivery policy is the second template
  argument of \<^verbatim>\<open>signal<F,etype>\<close>.
\<close>

datatype emit_type = synch | asynch

text \<open>
  A slot is a \<^verbatim>\<open>std::function<F>\<close> with \<^verbatim>\<open>F = void(Args...)\<close>. It is called
  with the payload \<open>'a\<close> and acts on the state \<open>'w\<close> that its closure captured. The
  call either returns or throws an exception \<open>'e\<close>; in both cases the writes it made to
  the captured state remain. The signal a slot is connected to is not part of \<open>'w\<close>: a
  slot of this model calls neither \<^verbatim>\<open>connect\<close> nor \<^verbatim>\<open>emit\<close> on its own signal
  (in the source a \<^verbatim>\<open>push_back\<close> during the loop of \<^verbatim>\<open>emit\<close> may invalidate the
  iterator of that loop).
\<close>

datatype ('e, 'w) completion = Returned 'w | Raised 'e 'w

type_synonym ('a, 'e, 'w) slot = "'a \<Rightarrow> 'w \<Rightarrow> ('e, 'w) completion"

text \<open>
  \<^verbatim>\<open>class signal\<close> has the single data member
  \<^verbatim>\<open>std::vector< std::function<F> > funcs\<close>. The template argument \<^verbatim>\<open>etype\<close> is
  kept as a field that no member function assigns.
\<close>

record ('a, 'e, 'w) signal =
  etype :: emit_type
  funcs :: "('a, 'e, 'w) slot list"

text \<open>
  One entry of the observation trace: the slot at position \<open>i\<close> of \<^verbatim>\<open>funcs\<close> was
  called with payload \<open>a\<close> and returned (\<open>None\<close>) or threw (\<open>Some e\<close>). The trace is
  a ghost variable written at the call \<^verbatim>\<open>(*fn)(args...)\<close>.
\<close>

datatype ('a, 'e) event = Invoked nat 'a "'e option"

text \<open>
  The state of one execution of \<^verbatim>\<open>emit\<close>: the object \<^verbatim>\<open>*this\<close>, the state
  captured by the slots, the local vector \<^verbatim>\<open>futures\<close>, the exception leaving the
  function (if any), and two ghost variables: the trace and the exceptions that were stored
  in a future and destroyed with it.

  An element of \<^verbatim>\<open>futures\<close> is the task that \<^verbatim>\<open>std::async(sig,args...)\<close>
  started and that has not yet taken effect: the position \<^verbatim>\<open>fn\<close> captured by the
  lambda \<^verbatim>\<open>sig\<close> and the copied arguments.
\<close>

record ('a, 'e, 'w) frame =
  this :: "('a, 'e, 'w) signal"
  world :: 'w
  futures :: "(nat \<times> 'a) list"
  raised :: "'e option"
  trace :: "('a, 'e) event list"
  lost :: "'e list"

subsection \<open>connect\<close>

text \<open>\<^verbatim>\<open>void connect( std::function<F> fn){ funcs.push_back(fn); }\<close>\<close>

definition connect :: "('a, 'e, 'w) signal \<Rightarrow> ('a, 'e, 'w) slot \<Rightarrow> ('a, 'e, 'w) signal" where
  "connect s fn = s\<lparr>funcs := funcs s @ [fn]\<rparr>"

subsection \<open>emit\<close>

text \<open>
  The lambda \<^verbatim>\<open>sig=[&,fn](Args... args){ (*fn)(args...); }\<close>: it dereferences the
  iterator \<^verbatim>\<open>fn\<close> into \<^verbatim>\<open>funcs\<close> of \<^verbatim>\<open>*this\<close> and calls that slot.
\<close>

definition sig_call ::
  "('a, 'e, 'w) signal \<Rightarrow> nat \<Rightarrow> 'a \<Rightarrow> 'w \<Rightarrow> ('e, 'w) completion" where
  "sig_call s fn args w = (funcs s ! fn) args w"

text \<open>
  The loop \<^verbatim>\<open>for(auto fn=funcs.begin(); fn!=funcs.end(); fn++)\<close>. The iterator is
  its offset from \<^verbatim>\<open>funcs.begin()\<close>; it starts at 0, so \<^verbatim>\<open>fn != funcs.end()\<close>
  is \<open>fn < length (funcs (this st))\<close>. With \<^verbatim>\<open>etype==asynch\<close> the body starts a task
  and stores its future; otherwise it calls \<^verbatim>\<open>sig(args...)\<close> on the caller's thread,
  and an exception thrown by the slot leaves the loop.
\<close>

function emit_loop ::
  "'a \<Rightarrow> nat \<Rightarrow> ('a, 'e, 'w) frame \<Rightarrow> ('a, 'e, 'w) frame" where
  "emit_loop args fn st =
     (if fn < length (funcs (this st)) then
        (if etype (this st) = asynch then
           emit_loop args (Suc fn) (st\<lparr>futures := futures st @ [(fn, args)]\<rparr>)
         else
           (case sig_call (this st) fn args (world st) of
              Returned w' \<Rightarrow>
                emit_loop args (Suc fn)
                  (st\<lparr>world := w', trace := trace st @ [Invoked fn args None]\<rparr>)
            | Raised e w' \<Rightarrow>
                st\<lparr>world := w', trace := trace st @ [Invoked fn args (Some e)],
                   raised := Some e\<rparr>))
      else st)"
  by pat_completeness auto
termination
  by (relation "measure (\<lambda>(args, fn, st). length (funcs (this st)) - fn)") auto

declare emit_loop.simps [simp del]

text \<open>
  \<^verbatim>\<open>std::async(sig,args...)\<close> is taken to start its task on a thread of its own
  (the behaviour of \<^verbatim>\<open>std::launch::async\<close>).
  The end of \<^verbatim>\<open>emit\<close>: the vector \<^verbatim>\<open>futures\<close> goes out of scope, and the
  destructor of a future obtained from \<^verbatim>\<open>std::async\<close> blocks until its task has
  finished. A task runs the slot on its own thread; an exception thrown there is stored in
  the shared state of the future, and since \<^verbatim>\<open>emit\<close> never calls \<^verbatim>\<open>get()\<close>
  it is destroyed with the future.

  Slots are state transformers, so the tasks of one call take effect one after another, in
  an order that the scheduler decides. Between the start of a task and the end of
  \<^verbatim>\<open>emit\<close> the caller's thread does nothing but start further tasks, so every such
  order is an order in which the tasks can be run at the end. The scheduler is the list
  \<open>sched\<close>: its head, modulo the number of unfinished tasks, selects the task that takes
  effect next (the first one when the list is exhausted). Every order of the tasks is the
  result of some \<open>sched\<close>.
\<close>

definition pick :: "nat list \<Rightarrow> nat \<Rightarrow> nat" where
  "pick sched n = (case sched of [] \<Rightarrow> 0 | c # _ \<Rightarrow> c mod n)"

function join :: "nat list \<Rightarrow> ('a, 'e, 'w) frame \<Rightarrow> ('a, 'e, 'w) frame" where
  "join sched st =
     (if futures st = [] then st
      else
        (let c = pick sched (length (futures st));
             fn = fst (futures st ! c);
             args = snd (futures st ! c);
             rest = take c (futures st) @ drop (Suc c) (futures st)
         in case sig_call (this st) fn args (world st) of
              Returned w' \<Rightarrow>
                join (tl sched)
                  (st\<lparr>world := w', futures := rest,
                     trace := trace st @ [Invoked fn args None]\<rparr>)
            | Raised e w' \<Rightarrow>
                join (tl sched)
                  (st\<lparr>world := w', futures := rest,
                     trace := trace st @ [Invoked fn args (Some e)],
                     lost := lost st @ [e]\<rparr>)))"
  by pat_completeness auto

termination
proof (relation "measure (\<lambda>(sched, st). length (futures st))")
  show "wf (measure (\<lambda>(sched, st). length (futures st)))" by simp
next
  fix sched and st :: "('a, 'e, 'w) frame" and c fn args rest w'
  assume "futures st \<noteq> []" and "c = pick sched (length (futures st))"
    and "rest = take c (futures st) @ drop (Suc c) (futures st)"
  then have "c < length (futures st)" by (simp add: pick_def split: list.split)
  then show "((tl sched, st\<lparr>world := w', futures := rest,
                 trace := trace st @ [Invoked fn args None]\<rparr>), sched, st)
               \<in> measure (\<lambda>(sched, st). length (futures st))"
    using \<open>rest = _\<close> by simp
next
  fix sched and st :: "('a, 'e, 'w) frame" and c fn args rest e w'
  assume "futures st \<noteq> []" and "c = pick sched (length (futures st))"
    and "rest = take c (futures st) @ drop (Suc c) (futures st)"
  then have "c < length (futures st)" by (simp add: pick_def split: list.split)
  then show "((tl sched, st\<lparr>world := w', futures := rest,
                 trace := trace st @ [Invoked fn args (Some e)],
                 lost := lost st @ [e]\<rparr>), sched, st)
               \<in> measure (\<lambda>(sched, st). length (futures st))"
    using \<open>rest = _\<close> by simp
qed

declare join.simps [simp del]

text \<open>
  \<^verbatim>\<open>template<typename... Args> void emit(Args... args)\<close>: the local vector, the
  loop, and the destruction of the vector on the way out (by return or by exception).
\<close>

definition emit ::
  "('a, 'e, 'w) signal \<Rightarrow> 'a \<Rightarrow> nat list \<Rightarrow> 'w \<Rightarrow> ('a, 'e, 'w) frame" where
  "emit s args sched w =
     join sched
       (emit_loop args 0
          \<lparr>this = s, world = w, futures = [], raised = None, trace = [], lost = []\<rparr>)"

subsection \<open>Callers\<close>

text \<open>
  A caller owns one signal and the state its slots captured, and performs \<^verbatim>\<open>connect\<close>
  and \<^verbatim>\<open>emit\<close> calls on it one after another (an \<^verbatim>\<open>emit\<close> call comes with
  the scheduler's choices for that call). The caller catches what \<^verbatim>\<open>emit\<close> throws
  and goes on; \<open>history\<close> is the concatenation of the traces of its \<^verbatim>\<open>emit\<close> calls.
\<close>

datatype ('a, 'e, 'w) call = Connect "('a, 'e, 'w) slot" | Emit 'a "nat list"

record ('a, 'e, 'w) client =
  target :: "('a, 'e, 'w) signal"
  store :: 'w
  history :: "('a, 'e) event list"
  caught :: "'e list"

fun perform :: "('a, 'e, 'w) client \<Rightarrow> ('a, 'e, 'w) call \<Rightarrow> ('a, 'e, 'w) client" where
  "perform c (Connect fn) = c\<lparr>target := connect (target c) fn\<rparr>"
| "perform c (Emit a sched) =
     (let r = emit (target c) a sched (store c)
      in c\<lparr>target := this r, store := world r, history := history c @ trace r,
           caught := caught c @ (case raised r of None \<Rightarrow> [] | Some e \<Rightarrow> [e])\<rparr>)"

definition run :: "('a, 'e, 'w) client \<Rightarrow> ('a, 'e, 'w) call list \<Rightarrow> ('a, 'e, 'w) client" where
  "run c calls = foldl perform c calls"

definition start :: "('a, 'e, 'w) signal \<Rightarrow> 'w \<Rightarrow> ('a, 'e, 'w) client" where
  "start s w = \<lparr>target = s, store = w, history = [], caught = []\<rparr>"

text \<open>The slots that a sequence of calls connects, in the order of the calls.\<close>

fun connected :: "('a, 'e, 'w) call list \<Rightarrow> ('a, 'e, 'w) slot list" where
  "connected [] = []"
| "connected (Connect fn # cs) = fn # connected cs"
| "connected (Emit a sched # cs) = connected cs"

text \<open>The number of \<^verbatim>\<open>emit\<close> calls in a sequence of calls.\<close>

fun emit_count :: "('a, 'e, 'w) call list \<Rightarrow> nat" where
  "emit_count [] = 0"
| "emit_count (Connect fn # cs) = emit_count cs"
| "emit_count (Emit a sched # cs) = Suc (emit_count cs)"

text \<open>\<open>K\<close> successive \<^verbatim>\<open>emit\<close> calls, given by their payloads and scheduler choices.\<close>

definition emits :: "('a \<times> nat list) list \<Rightarrow> ('a, 'e, 'w) call list" where
  "emits ps = map (\<lambda>(a, sched). Emit a sched) ps"

subsection \<open>Reading a trace\<close>

fun call_of :: "('a, 'e) event \<Rightarrow> nat \<times> 'a" where
  "call_of (Invoked i a r) = (i, a)"

fun failure_of :: "('a, 'e) event \<Rightarrow> 'e list" where
  "failure_of (Invoked i a r) = (case r of None \<Rightarrow> [] | Some e \<Rightarrow> [e])"

text \<open>The exceptions thrown by the slots of a trace, in order.\<close>

definition failures :: "('a, 'e) event list \<Rightarrow> 'e list" where
  "failures tr = concat (map failure_of tr)"

text \<open>The payloads with which the slot at position \<open>i\<close> was called, in order.\<close>

definition invocations :: "nat \<Rightarrow> ('a, 'e) event list \<Rightarrow> 'a list" where
  "invocations i tr = map snd (filter (\<lambda>c. fst c = i) (map call_of tr))"

text \<open>The state that a call of a slot leaves behind, however the call ended.\<close>

fun state_of :: "('e, 'w) completion \<Rightarrow> 'w" where
  "state_of (Returned w) = w"
| "state_of (Raised e w) = w"

text \<open>The outcome of a call of a slot, as an event records it.\<close>

fun outcome_of :: "('e, 'w) completion \<Rightarrow> 'e option" where
  "outcome_of (Returned w) = None"
| "outcome_of (Raised e w) = Some e"

text \<open>
  Replaying a trace: the slots \<open>fs\<close> themselves are called again, at the positions and
  with the payloads of the events, each in the state its predecessor left. \<open>replay\<close>
  is the state this ends in; \<open>agrees\<close> says that every position of the trace is a
  position of \<open>fs\<close> and every recorded outcome is the outcome of that call.
\<close>

fun replay :: "('a, 'e, 'w) slot list \<Rightarrow> ('a, 'e) event list \<Rightarrow> 'w \<Rightarrow> 'w" where
  "replay fs [] w = w"
| "replay fs (Invoked i a r # tr) w = replay fs tr (state_of ((fs ! i) a w))"

fun agrees :: "('a, 'e, 'w) slot list \<Rightarrow> ('a, 'e) event list \<Rightarrow> 'w \<Rightarrow> bool" where
  "agrees fs [] w = True"
| "agrees fs (Invoked i a r # tr) w =
     (i < length fs \<and> outcome_of ((fs ! i) a w) = r \<and> agrees fs tr (state_of ((fs ! i) a w)))"

subsection \<open>Synchronous delivery as the specification words it\<close>

text \<open>
  "For each handler in connection order, invoke it with the payload and wait for it to
  return before continuing to the next"; a failure interrupts the remaining handlers and
  propagates. The result is the final state, the calls made (numbered from \<open>i\<close>) and
  the exception that propagates. It is compared with \<open>emit_loop\<close> below.
\<close>

fun deliver_in_order ::
  "('a, 'e, 'w) slot list \<Rightarrow> nat \<Rightarrow> 'a \<Rightarrow> 'w \<Rightarrow> 'w \<times> ('a, 'e) event list \<times> 'e option" where
  "deliver_in_order [] i a w = (w, [], None)"
| "deliver_in_order (h # hs) i a w =
     (case h a w of
        Returned w' \<Rightarrow>
          (case deliver_in_order hs (Suc i) a w' of
             (w'', tr, r) \<Rightarrow> (w'', Invoked i a None # tr, r))
      | Raised e w' \<Rightarrow> (w', [Invoked i a (Some e)], Some e))"

subsection \<open>Example slots\<close>

text \<open>
  A slot of a \<^verbatim>\<open>void(int)\<close> signal that appends the received integer, with its own
  tag, to a shared log (the integer is only passed on, so its width plays no part); a slot
  that throws its tag; a signal as its constructor leaves it, with no slot; and the signal
  of the scenario: two logging slots, \<open>''A''\<close> connected first and \<open>''B''\<close> second.
\<close>

definition logger :: "string \<Rightarrow> (int, string, (string \<times> int) list) slot" where
  "logger tag n log = Returned (log @ [(tag, n)])"

definition thrower :: "string \<Rightarrow> (int, string, (string \<times> int) list) slot" where
  "thrower tag n log = Raised tag log"

definition empty_signal :: "emit_type \<Rightarrow> (int, string, (string \<times> int) list) signal" where
  "empty_signal et = \<lparr>etype = et, funcs = []\<rparr>"

definition log_signal :: "emit_type \<Rightarrow> (int, string, (string \<times> int) list) signal" where
  "log_signal et = connect (connect (empty_signal et) (logger ''A'')) (logger ''B'')"

text \<open>The same signal with a throwing slot connected between the two logging slots.\<close>

definition boom_signal :: "emit_type \<Rightarrow> (int, string, (string \<times> int) list) signal" where
  "boom_signal et =
     connect (connect (connect (empty_signal et) (logger ''A'')) (thrower ''boom''))
       (logger ''B'')"

section \<open>Properties\<close>

subsection \<open>The loop and the join in closed form\<close>

lemma emit_loop_done:
  "\<not> fn < length (funcs (this st)) \<Longrightarrow> emit_loop args fn st = st"
  by (subst emit_loop.simps) simp

lemma emit_loop_synch:
  "etype (this st) = synch \<Longrightarrow> fn \<le> length (funcs (this st)) \<Longrightarrow>
   emit_loop a fn st =
     (case deliver_in_order (drop fn (funcs (this st))) fn a (world st) of
        (w, tr, r) \<Rightarrow>
          st\<lparr>world := w, trace := trace st @ tr,
             raised := (case r of None \<Rightarrow> raised st | Some e \<Rightarrow> Some e)\<rparr>)"
proof (induction a fn st rule: emit_loop.induct)
  case (1 args fn st)
  show ?case
  proof (cases "fn < length (funcs (this st))")
    case False
    with "1.prems" have "fn = length (funcs (this st))" by simp
    with False show ?thesis by (simp add: emit_loop_done)
  next
    case True
    then have d: "drop fn (funcs (this st)) =
        (funcs (this st) ! fn) # drop (Suc fn) (funcs (this st))"
      by (simp add: Cons_nth_drop_Suc)
    show ?thesis
    proof (cases "sig_call (this st) fn args (world st)")
      case (Returned w')
      let ?st' = "st\<lparr>world := w', trace := trace st @ [Invoked fn args None]\<rparr>"
      have "emit_loop args fn st = emit_loop args (Suc fn) ?st'"
        using True "1.prems" Returned by (simp add: emit_loop.simps [of args fn st])
      also have "\<dots> =
        (case deliver_in_order (drop (Suc fn) (funcs (this ?st'))) (Suc fn) args (world ?st') of
           (w, tr, r) \<Rightarrow>
             ?st'\<lparr>world := w, trace := trace ?st' @ tr,
                raised := (case r of None \<Rightarrow> raised ?st' | Some e \<Rightarrow> Some e)\<rparr>)"
        using "1.IH"(2) [OF True _ Returned] True "1.prems" by simp
      finally show ?thesis
        using Returned d by (simp add: sig_call_def split: prod.split option.split)
    next
      case (Raised e w')
      then show ?thesis
        using True "1.prems" d by (simp add: emit_loop.simps [of args fn st] sig_call_def)
    qed
  qed
qed

lemma emit_loop_asynch:
  "etype (this st) = asynch \<Longrightarrow> fn \<le> length (funcs (this st)) \<Longrightarrow>
   emit_loop a fn st =
     st\<lparr>futures := futures st @ map (\<lambda>j. (j, a)) [fn ..< length (funcs (this st))]\<rparr>"
proof (induction a fn st rule: emit_loop.induct)
  case (1 args fn st)
  show ?case
  proof (cases "fn < length (funcs (this st))")
    case False
    with "1.prems" show ?thesis by (simp add: emit_loop_done)
  next
    case True
    then show ?thesis
      using "1.IH"(1) "1.prems"
      by (simp add: emit_loop.simps [of args fn st] upt_conv_Cons)
  qed
qed

lemma join_done: "futures st = [] \<Longrightarrow> join sched st = st"
  by (subst join.simps) simp

lemma mset_remove_nth:
  assumes "c < length xs"
  shows "mset xs = add_mset (xs ! c) (mset (take c xs @ drop (Suc c) xs))"
proof -
  from assms have "xs = take c xs @ (xs ! c) # drop (Suc c) xs"
    by (rule id_take_nth_drop)
  then have "mset xs = mset (take c xs @ (xs ! c) # drop (Suc c) xs)" by simp
  then show ?thesis by simp
qed

lemma pick_less: "0 < n \<Longrightarrow> pick sched n < n"
  by (simp add: pick_def split: list.split)

text \<open>
  The join runs every stored task exactly once, adds nothing else to the trace, and moves
  every exception of a task to \<open>lost\<close>; \<open>this\<close> and \<open>raised\<close> are not written.
\<close>

lemma join_effect:
  "\<exists>tr. join sched st =
          st\<lparr>world := world (join sched st), futures := [],
             trace := trace st @ tr, lost := lost st @ failures tr\<rparr>
        \<and> mset (map call_of tr) = mset (futures st)"
proof (induction sched st rule: join.induct)
  case (1 sched st)
  show ?case
  proof (cases "futures st = []")
    case True
    then have "join sched st = st" by (rule join_done)
    with True show ?thesis by (intro exI [of _ "[]"]) (simp add: failures_def)
  next
    case False
    define c where "c = pick sched (length (futures st))"
    define fn where "fn = fst (futures st ! c)"
    define args where "args = snd (futures st ! c)"
    define rest where "rest = take c (futures st) @ drop (Suc c) (futures st)"
    have c: "c < length (futures st)" using False by (simp add: c_def pick_less)
    have ms: "mset (futures st) = add_mset (fn, args) (mset rest)"
      using mset_remove_nth [OF c] by (simp add: fn_def args_def rest_def)
    show ?thesis
    proof (cases "sig_call (this st) fn args (world st)")
      case (Returned w')
      let ?st' = "st\<lparr>world := w', futures := rest,
                     trace := trace st @ [Invoked fn args None]\<rparr>"
      have step: "join sched st = join (tl sched) ?st'"
        using False Returned
        by (subst join.simps) (simp add: Let_def c_def [symmetric] fn_def [symmetric]
              args_def [symmetric] rest_def [symmetric])
      from "1.IH"(1) [OF False c_def fn_def args_def rest_def Returned]
      obtain tr where tr: "join (tl sched) ?st' =
          ?st'\<lparr>world := world (join (tl sched) ?st'), futures := [],
             trace := trace ?st' @ tr, lost := lost ?st' @ failures tr\<rparr>"
        and m: "mset (map call_of tr) = mset (futures ?st')" by blast
      have "join sched st =
          st\<lparr>world := world (join sched st), futures := [],
             trace := trace st @ (Invoked fn args None # tr),
             lost := lost st @ failures (Invoked fn args None # tr)\<rparr>"
        unfolding step by (subst tr) (simp add: failures_def)
      moreover have "mset (map call_of (Invoked fn args None # tr)) = mset (futures st)"
        using m ms by simp
      ultimately show ?thesis by blast
    next
      case (Raised e w')
      let ?st' = "st\<lparr>world := w', futures := rest,
                     trace := trace st @ [Invoked fn args (Some e)],
                     lost := lost st @ [e]\<rparr>"
      have step: "join sched st = join (tl sched) ?st'"
        using False Raised
        by (subst join.simps) (simp add: Let_def c_def [symmetric] fn_def [symmetric]
              args_def [symmetric] rest_def [symmetric])
      from "1.IH"(2) [OF False c_def fn_def args_def rest_def Raised]
      obtain tr where tr: "join (tl sched) ?st' =
          ?st'\<lparr>world := world (join (tl sched) ?st'), futures := [],
             trace := trace ?st' @ tr, lost := lost ?st' @ failures tr\<rparr>"
        and m: "mset (map call_of tr) = mset (futures ?st')" by blast
      have "join sched st =
          st\<lparr>world := world (join sched st), futures := [],
             trace := trace st @ (Invoked fn args (Some e) # tr),
             lost := lost st @ failures (Invoked fn args (Some e) # tr)\<rparr>"
        unfolding step by (subst tr) (simp add: failures_def)
      moreover have "mset (map call_of (Invoked fn args (Some e) # tr)) = mset (futures st)"
        using m ms by simp
      ultimately show ?thesis by blast
    qed
  qed
qed

text \<open>
  A synchronous \<^verbatim>\<open>emit\<close> is the in-order delivery of the specification: the loop
  stores no future, so the join has nothing to wait for.
\<close>

lemma emit_synch:
  assumes "etype s = synch"
  shows "emit s a sched w =
     (case deliver_in_order (funcs s) 0 a w of
        (w', tr, r) \<Rightarrow>
          \<lparr>this = s, world = w', futures = [], raised = r, trace = tr, lost = []\<rparr>)"
proof -
  let ?st = "\<lparr>this = s, world = w, futures = [], raised = None, trace = [], lost = []\<rparr>"
  have "emit_loop a 0 ?st =
     (case deliver_in_order (funcs s) 0 a w of
        (w', tr, r) \<Rightarrow>
          \<lparr>this = s, world = w', futures = [], raised = r, trace = tr, lost = []\<rparr>)"
    using assms emit_loop_synch [of ?st 0 a]
    by (simp split: prod.split option.split)
  then show ?thesis
    by (simp add: emit_def join_done split: prod.split)
qed

text \<open>
  An asynchronous \<^verbatim>\<open>emit\<close> starts one task per slot; the join runs each of them
  once, in the scheduler's order, and drops what they throw.
\<close>

lemma emit_asynch:
  assumes "etype s = asynch"
  shows "\<exists>tr. emit s a sched w =
            \<lparr>this = s, world = world (emit s a sched w), futures = [], raised = None,
               trace = tr, lost = failures tr\<rparr>
          \<and> mset (map call_of tr) = mset (map (\<lambda>j. (j, a)) [0 ..< length (funcs s)])"
proof -
  let ?st = "\<lparr>this = s, world = w, futures = [], raised = None, trace = [], lost = []\<rparr>"
  let ?st' = "?st\<lparr>futures := map (\<lambda>j. (j, a)) [0 ..< length (funcs s)]\<rparr>"
  have loop: "emit_loop a 0 ?st = ?st'"
    using assms emit_loop_asynch [of ?st 0 a] by simp
  then have e: "emit s a sched w = join sched ?st'" by (simp add: emit_def)
  from join_effect [of sched ?st'] show ?thesis unfolding e by simp
qed

lemma emit_this: "this (emit s a sched w) = s"
proof (cases "etype s")
  case synch
  then show ?thesis by (simp add: emit_synch split: prod.split)
next
  case asynch
  from emit_asynch [OF asynch, of a sched w] obtain tr where
    "emit s a sched w =
       \<lparr>this = s, world = world (emit s a sched w), futures = [], raised = None,
          trace = tr, lost = failures tr\<rparr>" by blast
  then have "this (emit s a sched w) =
      this \<lparr>this = s, world = world (emit s a sched w), futures = [], raised = None,
         trace = tr, lost = failures tr\<rparr>" by simp
  then show ?thesis by simp
qed

lemma emit_asynch_start:
  "etype s = asynch \<Longrightarrow>
   emit s a sched w =
     join sched \<lparr>this = s, world = w,
       futures = map (\<lambda>j. (j, a)) [0 ..< length (funcs s)], raised = None, trace = [],
       lost = []\<rparr>"
  by (simp add: emit_def emit_loop_asynch)

lemma join_step:
  "futures st \<noteq> [] \<Longrightarrow>
   join sched st =
     (let c = pick sched (length (futures st));
          fn = fst (futures st ! c);
          args = snd (futures st ! c);
          rest = take c (futures st) @ drop (Suc c) (futures st)
      in case sig_call (this st) fn args (world st) of
           Returned w' \<Rightarrow>
             join (tl sched)
               (st\<lparr>world := w', futures := rest,
                  trace := trace st @ [Invoked fn args None]\<rparr>)
         | Raised e w' \<Rightarrow>
             join (tl sched)
               (st\<lparr>world := w', futures := rest,
                  trace := trace st @ [Invoked fn args (Some e)],
                  lost := lost st @ [e]\<rparr>))"
  by (subst join.simps) simp

subsection \<open>In-order delivery\<close>

lemma upt_head: "[i ..< Suc (i + n)] = i # [Suc i ..< Suc (i + n)]"
  by (rule upt_conv_Cons) simp

lemma deliver_returns:
  "deliver_in_order hs i a w = (w', tr, None) \<Longrightarrow>
   tr = map (\<lambda>j. Invoked j a None) [i ..< i + length hs]
   \<and> w' = foldl (\<lambda>w h. state_of (h a w)) w hs"
proof (induction hs arbitrary: i w w' tr)
  case Nil
  then show ?case by simp
next
  case (Cons h hs)
  show ?case
  proof (cases "h a w")
    case (Returned w1)
    obtain w2 tr2 r2 where d: "deliver_in_order hs (Suc i) a w1 = (w2, tr2, r2)"
      by (cases "deliver_in_order hs (Suc i) a w1") auto
    from Cons.prems Returned d
    have tr: "tr = Invoked i a None # tr2" and r: "r2 = None" and w: "w' = w2" by auto
    from Cons.IH [of "Suc i" w1 w2 tr2] d r
    have "tr2 = map (\<lambda>j. Invoked j a None) [Suc i ..< Suc i + length hs]"
      and "w2 = foldl (\<lambda>w h. state_of (h a w)) w1 hs" by simp_all
    with tr w Returned show ?thesis by (simp add: upt_head del: upt_Suc)
  next
    case (Raised e w1)
    with Cons.prems show ?thesis by simp
  qed
qed

lemma deliver_calls:
  "deliver_in_order hs i a w = (w', tr, r) \<Longrightarrow>
   \<exists>k\<le>length hs. map call_of tr = map (\<lambda>j. (j, a)) [i ..< i + k]
      \<and> (r = None \<longrightarrow> k = length hs)"
proof (induction hs arbitrary: i w w' tr r)
  case Nil
  then show ?case by simp
next
  case (Cons h hs)
  show ?case
  proof (cases "h a w")
    case (Returned w1)
    obtain w2 tr2 r2 where d: "deliver_in_order hs (Suc i) a w1 = (w2, tr2, r2)"
      by (cases "deliver_in_order hs (Suc i) a w1") auto
    from Cons.IH [OF d] obtain k where k: "k \<le> length hs"
      "map call_of tr2 = map (\<lambda>j. (j, a)) [Suc i ..< Suc i + k]"
      "r2 = None \<longrightarrow> k = length hs" by blast
    from Cons.prems Returned d have tr: "tr = Invoked i a None # tr2" and r: "r = r2" by auto
    have "map call_of tr = map (\<lambda>j. (j, a)) [i ..< i + Suc k]"
      using k(2) tr by (simp add: upt_head del: upt_Suc)
    with k(1,3) r show ?thesis by (intro exI [of _ "Suc k"]) simp
  next
    case (Raised e w1)
    with Cons.prems have "tr = [Invoked i a (Some e)]" "r = Some e" by auto
    then show ?thesis by (intro exI [of _ "Suc 0"]) simp
  qed
qed

lemma deliver_append:
  "deliver_in_order (xs @ ys) i a w =
     (case deliver_in_order xs i a w of
        (w1, tr1, None) \<Rightarrow>
          (case deliver_in_order ys (i + length xs) a w1 of
             (w2, tr2, r) \<Rightarrow> (w2, tr1 @ tr2, r))
      | (w1, tr1, Some e) \<Rightarrow> (w1, tr1, Some e))"
proof (induction xs arbitrary: i w)
  case Nil
  then show ?case by (simp split: prod.split)
next
  case (Cons h hs)
  show ?case
  proof (cases "h a w")
    case (Returned w1)
    then show ?thesis
      using Cons.IH [of "Suc i" w1] by (simp split: prod.split option.split)
  next
    case (Raised e w1)
    then show ?thesis by simp
  qed
qed

lemma filter_eq_upt: "filter (\<lambda>j. j = i) [0 ..< k] = (if i < k then [i] else [])"
  by (induction k) auto

lemma invocations_upt:
  assumes "mset (map call_of tr) = mset (map (\<lambda>j. (j, a)) [0 ..< k])"
  shows "invocations i tr = (if i < k then [a] else [])"
proof -
  have "mset (invocations i tr) =
      image_mset snd (filter_mset (\<lambda>c. fst c = i) (mset (map call_of tr)))"
    by (simp add: invocations_def)
  also have "\<dots> = mset (map snd (filter (\<lambda>c. fst c = i) (map (\<lambda>j. (j, a)) [0 ..< k])))"
    unfolding assms by simp
  also have "filter (\<lambda>c. fst c = i) (map (\<lambda>j. (j, a)) [0 ..< k]) =
      map (\<lambda>j. (j, a)) (filter (\<lambda>j. j = i) [0 ..< k])"
    by (simp add: filter_map comp_def)
  finally have m: "mset (invocations i tr) = mset (if i < k then [a] else [])"
    by (simp add: filter_eq_upt)
  show ?thesis
  proof (cases "i < k")
    case True
    with m have "mset (invocations i tr) = {#a#}" by simp
    then have "invocations i tr = [a]" by (simp only: mset_single_iff)
    with True show ?thesis by simp
  next
    case False
    with m show ?thesis by simp
  qed
qed

subsection \<open>The trace is an exact log\<close>

lemma replay_append: "replay fs (xs @ ys) w = replay fs ys (replay fs xs w)"
proof (induction xs arbitrary: w)
  case Nil
  show ?case by simp
next
  case (Cons x xs)
  then show ?case by (cases x) simp
qed

lemma agrees_append:
  "agrees fs (xs @ ys) w = (agrees fs xs w \<and> agrees fs ys (replay fs xs w))"
proof (induction xs arbitrary: w)
  case Nil
  show ?case by simp
next
  case (Cons x xs)
  then show ?case by (cases x) auto
qed

lemma agrees_more:
  "agrees fs tr w \<Longrightarrow> agrees (fs @ gs) tr w \<and> replay (fs @ gs) tr w = replay fs tr w"
proof (induction tr arbitrary: w)
  case Nil
  show ?case by simp
next
  case (Cons x xs)
  then show ?case by (cases x) (auto simp: nth_append)
qed

lemma deliver_replay:
  "deliver_in_order hs i a w = (w', tr, r) \<Longrightarrow> i + length hs \<le> length fs \<Longrightarrow>
   drop i fs = hs @ drop (i + length hs) fs \<Longrightarrow>
   replay fs tr w = w' \<and> agrees fs tr w"
proof (induction hs arbitrary: i w w' tr r)
  case Nil
  then show ?case by simp
next
  case (Cons h hs)
  from Cons.prems(2) have il: "i < length fs" by simp
  from Cons.prems(3) il have h: "fs ! i = h"
    by (metis Cons_nth_drop_Suc append_Cons list.inject)
  from Cons.prems(3) il have d: "drop (Suc i) fs = hs @ drop (Suc i + length hs) fs"
    by (metis Cons_nth_drop_Suc add_Suc_shift append_Cons length_Cons list.inject add_Suc)
  show ?case
  proof (cases "h a w")
    case (Returned w1)
    obtain w2 tr2 r2 where d2: "deliver_in_order hs (Suc i) a w1 = (w2, tr2, r2)"
      by (cases "deliver_in_order hs (Suc i) a w1") auto
    from Cons.prems(1) Returned d2 have tr: "tr = Invoked i a None # tr2" and w: "w' = w2"
      by auto
    from Cons.IH [OF d2 _ d] Cons.prems(2)
    have "replay fs tr2 w1 = w2 \<and> agrees fs tr2 w1" by simp
    with tr w Returned h il show ?thesis by simp
  next
    case (Raised e w1)
    with Cons.prems(1) h il show ?thesis by auto
  qed
qed

lemma join_replay:
  "\<forall>p\<in>set (futures st). fst p < length (funcs (this st)) \<Longrightarrow>
   \<exists>tr. trace (join sched st) = trace st @ tr
      \<and> world (join sched st) = replay (funcs (this st)) tr (world st)
      \<and> agrees (funcs (this st)) tr (world st)"
proof (induction sched st rule: join.induct)
  case (1 sched st)
  show ?case
  proof (cases "futures st = []")
    case True
    then have "join sched st = st" by (rule join_done)
    then show ?thesis by (intro exI [of _ "[]"]) simp
  next
    case False
    define c where "c = pick sched (length (futures st))"
    define fn where "fn = fst (futures st ! c)"
    define args where "args = snd (futures st ! c)"
    define rest where "rest = take c (futures st) @ drop (Suc c) (futures st)"
    have c: "c < length (futures st)" using False by (simp add: c_def pick_less)
    then have "futures st ! c \<in> set (futures st)" by simp
    with "1.prems" have fn: "fn < length (funcs (this st))" by (simp add: fn_def)
    have "set rest \<subseteq> set (futures st)"
      using set_take_subset [of c "futures st"] set_drop_subset [of "Suc c" "futures st"]
      by (auto simp: rest_def)
    with "1.prems" have rest: "\<forall>p\<in>set rest. fst p < length (funcs (this st))" by blast
    show ?thesis
    proof (cases "sig_call (this st) fn args (world st)")
      case (Returned w')
      let ?st' = "st\<lparr>world := w', futures := rest,
                     trace := trace st @ [Invoked fn args None]\<rparr>"
      have step: "join sched st = join (tl sched) ?st'"
        using False Returned
        by (subst join.simps) (simp add: Let_def c_def [symmetric] fn_def [symmetric]
              args_def [symmetric] rest_def [symmetric])
      have "\<forall>p\<in>set (futures ?st'). fst p < length (funcs (this ?st'))" using rest by simp
      from "1.IH"(1) [OF False c_def fn_def args_def rest_def Returned this]
      obtain tr where tr: "trace (join (tl sched) ?st') = trace ?st' @ tr"
        "world (join (tl sched) ?st') = replay (funcs (this ?st')) tr (world ?st')"
        "agrees (funcs (this ?st')) tr (world ?st')" by (elim exE conjE)
      from Returned have s: "(funcs (this st) ! fn) args (world st) = Returned w'"
        by (simp add: sig_call_def)
      have "trace (join sched st) = trace st @ (Invoked fn args None # tr)"
        using tr(1) by (simp add: step)
      moreover have "world (join sched st) =
          replay (funcs (this st)) (Invoked fn args None # tr) (world st)"
        using tr(2) s by (simp add: step)
      moreover have "agrees (funcs (this st)) (Invoked fn args None # tr) (world st)"
        using tr(3) s fn by simp
      ultimately show ?thesis by (intro exI [of _ "Invoked fn args None # tr"]) simp
    next
      case (Raised e w')
      let ?st' = "st\<lparr>world := w', futures := rest,
                     trace := trace st @ [Invoked fn args (Some e)],
                     lost := lost st @ [e]\<rparr>"
      have step: "join sched st = join (tl sched) ?st'"
        using False Raised
        by (subst join.simps) (simp add: Let_def c_def [symmetric] fn_def [symmetric]
              args_def [symmetric] rest_def [symmetric])
      have "\<forall>p\<in>set (futures ?st'). fst p < length (funcs (this ?st'))" using rest by simp
      from "1.IH"(2) [OF False c_def fn_def args_def rest_def Raised this]
      obtain tr where tr: "trace (join (tl sched) ?st') = trace ?st' @ tr"
        "world (join (tl sched) ?st') = replay (funcs (this ?st')) tr (world ?st')"
        "agrees (funcs (this ?st')) tr (world ?st')" by (elim exE conjE)
      from Raised have s: "(funcs (this st) ! fn) args (world st) = Raised e w'"
        by (simp add: sig_call_def)
      have "trace (join sched st) = trace st @ (Invoked fn args (Some e) # tr)"
        using tr(1) by (simp add: step)
      moreover have "world (join sched st) =
          replay (funcs (this st)) (Invoked fn args (Some e) # tr) (world st)"
        using tr(2) s by (simp add: step)
      moreover have "agrees (funcs (this st)) (Invoked fn args (Some e) # tr) (world st)"
        using tr(3) s fn by simp
      ultimately show ?thesis by (intro exI [of _ "Invoked fn args (Some e) # tr"]) simp
    qed
  qed
qed

lemma emit_replay:
  "world (emit s a sched w) = replay (funcs s) (trace (emit s a sched w)) w
   \<and> agrees (funcs s) (trace (emit s a sched w)) w"
proof (cases "etype s")
  case synch
  obtain w' tr r where d: "deliver_in_order (funcs s) 0 a w = (w', tr, r)"
    by (cases "deliver_in_order (funcs s) 0 a w") auto
  have e: "emit s a sched w =
      \<lparr>this = s, world = w', futures = [], raised = r, trace = tr, lost = []\<rparr>"
    using emit_synch [OF synch, of a sched w] d by simp
  from deliver_replay [OF d, of "funcs s"] show ?thesis by (simp add: e)
next
  case asynch
  let ?st = "\<lparr>this = s, world = w,
       futures = map (\<lambda>j. (j, a)) [0 ..< length (funcs s)], raised = None, trace = [],
       lost = []\<rparr>"
  have e: "emit s a sched w = join sched ?st" using asynch by (rule emit_asynch_start)
  have "\<forall>p\<in>set (futures ?st). fst p < length (funcs (this ?st))" by auto
  from join_replay [OF this, of sched] show ?thesis unfolding e by auto
qed

subsection \<open>The calls of one emit, under either policy\<close>

lemma emit_calls:
  "\<exists>k\<le>length (funcs s).
     mset (map call_of (trace (emit s a sched w))) = mset (map (\<lambda>j. (j, a)) [0 ..< k])
     \<and> (raised (emit s a sched w) = None \<longrightarrow> k = length (funcs s))"
proof (cases "etype s")
  case synch
  obtain w' tr r where d: "deliver_in_order (funcs s) 0 a w = (w', tr, r)"
    by (cases "deliver_in_order (funcs s) 0 a w") auto
  have e: "emit s a sched w =
      \<lparr>this = s, world = w', futures = [], raised = r, trace = tr, lost = []\<rparr>"
    using emit_synch [OF synch, of a sched w] d by simp
  from deliver_calls [OF d] obtain k where k: "k \<le> length (funcs s)"
    "map call_of tr = map (\<lambda>j. (j, a)) [0 ..< k]" "r = None \<longrightarrow> k = length (funcs s)"
    by auto
  from k(2) have m: "mset (map call_of tr) = mset (map (\<lambda>j. (j, a)) [0 ..< k])"
    by (simp only:)
  have t: "trace (emit s a sched w) = tr" and r: "raised (emit s a sched w) = r"
    by (simp_all add: e)
  from k(1,3) m show ?thesis unfolding t r by (intro exI [of _ k]) simp
next
  case asynch
  from emit_asynch [OF asynch, of a sched w] obtain tr where
    e: "emit s a sched w =
       \<lparr>this = s, world = world (emit s a sched w), futures = [], raised = None,
          trace = tr, lost = failures tr\<rparr>"
    and m: "mset (map call_of tr) = mset (map (\<lambda>j. (j, a)) [0 ..< length (funcs s)])"
    by blast
  have t: "trace (emit s a sched w) = tr" by (subst e) simp
  from m show ?thesis unfolding t by (intro exI [of _ "length (funcs s)"]) simp
qed

lemma emit_asynch_returns:
  assumes "etype s = asynch"
  shows "raised (emit s a sched w) = None"
proof -
  from emit_asynch [OF assms, of a sched w] obtain tr where
    e: "emit s a sched w =
       \<lparr>this = s, world = world (emit s a sched w), futures = [], raised = None,
          trace = tr, lost = failures tr\<rparr>" by blast
  show ?thesis by (subst e) simp
qed

lemma emit_invocations:
  "length (invocations i (trace (emit s a sched w))) \<le> 1"
  "length (funcs s) \<le> i \<Longrightarrow> invocations i (trace (emit s a sched w)) = []"
  "i < length (funcs s) \<Longrightarrow> raised (emit s a sched w) = None \<Longrightarrow>
     invocations i (trace (emit s a sched w)) = [a]"
proof -
  from emit_calls [of s a sched w] obtain k where k: "k \<le> length (funcs s)"
    "mset (map call_of (trace (emit s a sched w))) = mset (map (\<lambda>j. (j, a)) [0 ..< k])"
    "raised (emit s a sched w) = None \<longrightarrow> k = length (funcs s)" by (elim exE conjE)
  note inv = invocations_upt [OF k(2), of i]
  show "length (invocations i (trace (emit s a sched w))) \<le> 1"
    by (simp add: inv)
  show "length (funcs s) \<le> i \<Longrightarrow> invocations i (trace (emit s a sched w)) = []"
    using k(1) by (simp add: inv)
  show "i < length (funcs s) \<Longrightarrow> raised (emit s a sched w) = None \<Longrightarrow>
     invocations i (trace (emit s a sched w)) = [a]"
    using k(3) by (simp add: inv)
qed

lemma invocations_append: "invocations i (xs @ ys) = invocations i xs @ invocations i ys"
  by (simp add: invocations_def)

subsection \<open>Sequences of calls\<close>

lemma run_Nil: "run c [] = c"
  by (simp add: run_def)

lemma run_Cons: "run c (x # xs) = run (perform c x) xs"
  by (simp add: run_def)

lemma run_append: "run c (xs @ ys) = run (run c xs) ys"
  by (simp add: run_def)

lemma perform_Connect:
  "target (perform c (Connect fn)) = connect (target c) fn"
  "store (perform c (Connect fn)) = store c"
  "history (perform c (Connect fn)) = history c"
  "caught (perform c (Connect fn)) = caught c"
  by simp_all

lemma perform_Emit:
  "target (perform c (Emit a sched)) = target c"
  "store (perform c (Emit a sched)) = world (emit (target c) a sched (store c))"
  "history (perform c (Emit a sched)) = history c @ trace (emit (target c) a sched (store c))"
  "caught (perform c (Emit a sched)) =
     caught c @ (case raised (emit (target c) a sched (store c)) of None \<Rightarrow> [] | Some e \<Rightarrow> [e])"
  by (simp_all add: Let_def emit_this)

declare perform.simps [simp del]

lemma run_sig:
  "funcs (target (run c calls)) = funcs (target c) @ connected calls
   \<and> etype (target (run c calls)) = etype (target c)"
proof (induction calls arbitrary: c)
  case Nil
  show ?case by (simp add: run_Nil)
next
  case (Cons x xs)
  show ?case
    using Cons.IH [of "perform c x"]
    by (cases x) (simp_all add: run_Cons perform_Connect perform_Emit connect_def)
qed

lemma run_not_connected:
  "length (funcs (target (run c calls))) \<le> i \<Longrightarrow>
   invocations i (history (run c calls)) = invocations i (history c)"
proof (induction calls arbitrary: c)
  case Nil
  show ?case by (simp add: run_Nil)
next
  case (Cons x xs)
  from Cons.prems have le: "length (funcs (target (run (perform c x) xs))) \<le> i"
    by (simp add: run_Cons)
  from Cons.IH [OF le]
  have ih: "invocations i (history (run c (x # xs))) = invocations i (history (perform c x))"
    by (simp add: run_Cons)
  from le run_sig [of "perform c x" xs]
  have le': "length (funcs (target (perform c x))) \<le> i" by simp
  show ?case
  proof (cases x)
    case (Connect fn)
    with ih show ?thesis by (simp add: perform_Connect)
  next
    case (Emit a sched)
    with le' have "length (funcs (target c)) \<le> i" by (simp add: perform_Emit)
    then have "invocations i (trace (emit (target c) a sched (store c))) = []"
      by (rule emit_invocations(2))
    with ih Emit show ?thesis by (simp add: perform_Emit invocations_append)
  qed
qed

lemma run_at_most:
  "length (invocations i (history (run c calls)))
     \<le> length (invocations i (history c)) + emit_count calls"
proof (induction calls arbitrary: c)
  case Nil
  show ?case by (simp add: run_Nil)
next
  case (Cons x xs)
  show ?case
  proof (cases x)
    case (Connect fn)
    with Cons.IH [of "perform c x"] show ?thesis by (simp add: run_Cons perform_Connect)
  next
    case (Emit a sched)
    have "length (invocations i (history (perform c x)))
        \<le> length (invocations i (history c)) + 1"
      using emit_invocations(1) [of i "target c" a sched "store c"] Emit
      by (simp add: perform_Emit invocations_append)
    with Cons.IH [of "perform c x"] Emit show ?thesis by (simp add: run_Cons)
  qed
qed

lemma run_caught: "\<exists>es. caught (run c calls) = caught c @ es"
proof (induction calls arbitrary: c)
  case Nil
  show ?case by (simp add: run_Nil)
next
  case (Cons x xs)
  from Cons.IH [of "perform c x"] obtain es where
    "caught (run c (x # xs)) = caught (perform c x) @ es" by (auto simp: run_Cons)
  then show ?case by (cases x) (auto simp: perform_Connect perform_Emit)
qed

lemma run_emits_exact:
  assumes "i < length (funcs (target c))"
    and "etype (target c) = asynch \<or> caught (run c (emits ps)) = []"
  shows "invocations i (history (run c (emits ps))) = invocations i (history c) @ map fst ps"
  using assms
proof (induction ps arbitrary: c)
  case Nil
  show ?case by (simp add: emits_def run_Nil)
next
  case (Cons p ps)
  obtain a sched where p: "p = (a, sched)" by (cases p)
  let ?r = "emit (target c) a sched (store c)"
  let ?c' = "perform c (Emit a sched)"
  have run: "run c (emits ((a, sched) # ps)) = run ?c' (emits ps)"
    by (simp add: emits_def run_Cons)
  have sig': "target ?c' = target c" by (simp add: perform_Emit)
  have r: "raised ?r = None"
  proof (cases "etype (target c) = asynch")
    case True
    then show ?thesis by (rule emit_asynch_returns)
  next
    case False
    with Cons.prems(2) have "caught (run ?c' (emits ps)) = []" by (simp add: p run)
    with run_caught [of ?c' "emits ps"] have "caught ?c' = []" by auto
    then show ?thesis by (simp add: perform_Emit split: option.splits)
  qed
  have one: "invocations i (trace ?r) = [a]"
    using Cons.prems(1) r by (rule emit_invocations(3))
  have "invocations i (history (run ?c' (emits ps))) =
      invocations i (history ?c') @ map fst ps"
  proof (rule Cons.IH)
    show "i < length (funcs (target ?c'))" using Cons.prems(1) by (simp only: sig')
    show "etype (target ?c') = asynch \<or> caught (run ?c' (emits ps)) = []"
      using Cons.prems(2) by (simp only: sig' p run)
  qed
  then show ?case
    using one by (simp add: run p perform_Emit invocations_append)
qed

lemma run_replay:
  "\<exists>h. history (run c calls) = history c @ h
      \<and> store (run c calls) = replay (funcs (target (run c calls))) h (store c)
      \<and> agrees (funcs (target (run c calls))) h (store c)"
proof (induction calls arbitrary: c)
  case Nil
  show ?case by (simp add: run_Nil)
next
  case (Cons x xs)
  let ?F = "funcs (target (run c (x # xs)))"
  from Cons.IH [of "perform c x"] obtain h where h:
    "history (run c (x # xs)) = history (perform c x) @ h"
    "store (run c (x # xs)) = replay ?F h (store (perform c x))"
    "agrees ?F h (store (perform c x))"
    unfolding run_Cons by (elim exE conjE)
  show ?case
  proof (cases x)
    case (Connect fn)
    with h show ?thesis by (intro exI [of _ h]) (simp add: perform_Connect)
  next
    case (Emit a sched)
    let ?r = "emit (target c) a sched (store c)"
    have F: "?F = funcs (target c) @ connected xs"
      using run_sig [of "perform c x" xs] Emit by (simp add: run_Cons perform_Emit)
    from emit_replay [of "target c" a sched "store c"]
    have "agrees (funcs (target c)) (trace ?r) (store c)"
      and w: "world ?r = replay (funcs (target c)) (trace ?r) (store c)" by simp_all
    from agrees_more [OF this(1), of "connected xs"]
    have a: "agrees ?F (trace ?r) (store c)"
      and r: "replay ?F (trace ?r) (store c) = world ?r"
      by (simp_all add: F w)
    have "history (run c (x # xs)) = history c @ (trace ?r @ h)"
      using h(1) Emit by (simp add: perform_Emit)
    moreover have "store (run c (x # xs)) = replay ?F (trace ?r @ h) (store c)"
      using h(2) Emit r by (simp add: perform_Emit replay_append)
    moreover have "agrees ?F (trace ?r @ h) (store c)"
      using h(3) Emit a r by (simp add: perform_Emit agrees_append)
    ultimately show ?thesis by (intro exI [of _ "trace ?r @ h"]) simp
  qed
qed

lemma run_start_replay:
  "store (run (start s w) calls) =
     replay (funcs (target (run (start s w) calls))) (history (run (start s w) calls)) w
   \<and> agrees (funcs (target (run (start s w) calls))) (history (run (start s w) calls)) w"
  using run_replay [of "start s w" calls] by (auto simp: start_def)

lemma connected_emits: "connected (emits ps) = []"
  by (induction ps) (auto simp: emits_def)




subsection \<open>The example signal\<close>

lemma log_signal_funcs: "funcs (log_signal et) = [logger ''A'', logger ''B'']"
  by (simp add: log_signal_def empty_signal_def connect_def)

lemma log_signal_etype: "etype (log_signal et) = et"
  by (simp add: log_signal_def empty_signal_def connect_def)

lemma boom_signal_funcs:
  "funcs (boom_signal et) = [logger ''A'', thrower ''boom'', logger ''B'']"
  by (simp add: boom_signal_def empty_signal_def connect_def)

lemma boom_signal_etype: "etype (boom_signal et) = et"
  by (simp add: boom_signal_def empty_signal_def connect_def)

text \<open>Synchronously, the exception of the second slot leaves \<^verbatim>\<open>emit\<close>.\<close>

lemma boom_synch:
  "emit (boom_signal synch) 7 sched [] =
     \<lparr>this = boom_signal synch, world = [(''A'', 7)], futures = [], raised = Some ''boom'',
        trace = [Invoked 0 7 None, Invoked 1 7 (Some ''boom'')], lost = []\<rparr>"
  by (simp add: emit_synch boom_signal_etype boom_signal_funcs logger_def thrower_def)


text \<open>The order of an asynchronous delivery depends on the scheduler.\<close>

lemma log_asynch_order:
  "world (emit (log_signal asynch) 7 [1] []) = [(''B'', 7), (''A'', 7)]
   \<and> world (emit (log_signal asynch) 7 [0] []) = [(''A'', 7), (''B'', 7)]"
  by (simp add: emit_asynch_start log_signal_etype log_signal_funcs upt_conv_Cons
      join_step join_done sig_call_def pick_def logger_def)

lemma log_run:
  "run (start (log_signal synch) []) (emits [(1, []), (2, [])]) =
     \<lparr>target = log_signal synch,
        store = [(''A'', 1), (''B'', 1), (''A'', 2), (''B'', 2)],
        history = [Invoked 0 1 None, Invoked 1 1 None, Invoked 0 2 None, Invoked 1 2 None],
        caught = []\<rparr>"
  by (simp add: run_def emits_def start_def perform.simps Let_def emit_synch
      log_signal_etype log_signal_funcs logger_def)

lemma late_run:
  "run (start (empty_signal asynch) []) [Emit 5 [], Connect (logger ''A''), Emit 6 []] =
     \<lparr>target = connect (empty_signal asynch) (logger ''A''),
        store = [(''A'', 6)], history = [Invoked 0 6 None], caught = []\<rparr>"
  by (simp add: run_def start_def perform.simps Let_def emit_asynch_start
      empty_signal_def connect_def upt_conv_Cons join_step join_done sig_call_def pick_def
      logger_def)

lemma mixed_run:
  "run (start (empty_signal synch) [])
       [Connect (logger ''A''), Emit 1 [], Connect (thrower ''boom''), Emit 2 [],
        Connect (logger ''B''), Emit 3 []] =
     \<lparr>target = boom_signal synch,
        store = [(''A'', 1), (''A'', 2), (''A'', 3)],
        history = [Invoked 0 1 None, Invoked 0 2 None, Invoked 1 2 (Some ''boom''),
                   Invoked 0 3 None, Invoked 1 3 (Some ''boom'')],
        caught = [''boom'', ''boom'']\<rparr>"
  by (simp add: run_def start_def perform.simps Let_def emit_synch boom_signal_def
      empty_signal_def connect_def logger_def thrower_def)

subsection \<open>Synchronous emission\<close>

text \<open>
  Claim C1. For a signal with the synchronous policy whose slots were connected in the
  order \<open>funcs s\<close>, every \<^verbatim>\<open>emit\<close> call makes its calls in connection order,
  each with the payload: the calls made are those of the first \<open>k\<close> positions, in
  that order. When no slot throws, so that every slot runs to completion, the calls are
  those of all positions \<open>0, \<dots>, n - 1\<close> in that order, and each slot starts in the
  state that its predecessor left on returning.
\<close>

theorem synch_emit_in_connection_order:
  assumes "etype s = synch"
  shows "(\<exists>k\<le>length (funcs s).
            map call_of (trace (emit s a sched w)) = map (\<lambda>i. (i, a)) [0 ..< k])
       \<and> (raised (emit s a sched w) = None \<longrightarrow>
            trace (emit s a sched w) = map (\<lambda>i. Invoked i a None) [0 ..< length (funcs s)]
          \<and> world (emit s a sched w) = foldl (\<lambda>w h. state_of (h a w)) w (funcs s))"
proof -
  obtain w' tr r where d: "deliver_in_order (funcs s) 0 a w = (w', tr, r)"
    by (cases "deliver_in_order (funcs s) 0 a w") auto
  have e: "emit s a sched w =
      \<lparr>this = s, world = w', futures = [], raised = r, trace = tr, lost = []\<rparr>"
    using emit_synch [OF assms, of a sched w] d by simp
  from deliver_calls [OF d] have "\<exists>k\<le>length (funcs s).
      map call_of (trace (emit s a sched w)) = map (\<lambda>i. (i, a)) [0 ..< k]"
    unfolding e by auto
  moreover have "raised (emit s a sched w) = None \<longrightarrow>
            trace (emit s a sched w) = map (\<lambda>i. Invoked i a None) [0 ..< length (funcs s)]
          \<and> world (emit s a sched w) = foldl (\<lambda>w h. state_of (h a w)) w (funcs s)"
    unfolding e using deliver_returns [of "funcs s" 0 a w w' tr] d by simp
  ultimately show ?thesis by blast
qed

theorem synch_emit_in_connection_order_witness:
  "etype (log_signal synch) = synch
   \<and> raised (emit (log_signal synch) 7 [] []) = None
   \<and> trace (emit (log_signal synch) 7 [] []) = [Invoked 0 7 None, Invoked 1 7 None]
   \<and> world (emit (log_signal synch) 7 [] []) = [(''A'', 7), (''B'', 7)]"
proof -
  have p: "etype (log_signal synch) = synch" by (simp add: log_signal_etype)
  have r: "raised (emit (log_signal synch) 7 [] []) = None"
    by (simp add: emit_synch log_signal_etype log_signal_funcs logger_def)
  from synch_emit_in_connection_order [OF p, of 7 "[]" "[]"] r p show ?thesis
    by (simp add: log_signal_funcs logger_def upt_conv_Cons)
qed

text \<open>
  Claim C8. The scenario: a synchronous signal of one integer parameter with two logging
  slots, \<open>''A''\<close> connected first and \<open>''B''\<close> second. \<^verbatim>\<open>emit(7)\<close> on the empty
  log leaves the log \<open>[(''A'', 7), (''B'', 7)]\<close> and returns normally, and two runs from
  the same initial log end in the same state whatever the scheduler does: the result does
  not depend on \<open>sched\<close>.
\<close>

theorem log_scenario_deterministic:
  "world (emit (log_signal synch) 7 sched []) = [(''A'', 7), (''B'', 7)]
   \<and> raised (emit (log_signal synch) 7 sched []) = None
   \<and> emit (log_signal synch) 7 sched log = emit (log_signal synch) 7 sched' log"
  by (simp add: emit_synch log_signal_etype log_signal_funcs logger_def)

theorem log_scenario_deterministic_witness:
  "world (emit (log_signal synch) 7 [1, 0] []) = [(''A'', 7), (''B'', 7)]
   \<and> emit (log_signal synch) 7 [1, 0] [(''B'', 3)] = emit (log_signal synch) 7 [0, 1] [(''B'', 3)]"
  using log_scenario_deterministic [of "[1, 0]" "[(''B'', 3)]" "[0, 1]"] by simp

subsection \<open>No slot connected\<close>

text \<open>
  Claim C4. For a signal of either policy with no slot connected, \<^verbatim>\<open>emit\<close> calls no
  slot (the trace is empty), starts no task, leaves the signal and the captured state as
  they were, and returns normally.
\<close>

theorem emit_no_handlers:
  assumes "funcs s = []"
  shows "emit s a sched w =
     \<lparr>this = s, world = w, futures = [], raised = None, trace = [], lost = []\<rparr>"
  using assms by (simp add: emit_def emit_loop_done join_done)

theorem emit_no_handlers_witness:
  "funcs (empty_signal synch) = [] \<and> funcs (empty_signal asynch) = []
   \<and> emit (empty_signal synch) 7 [] [(''A'', 1)] =
       \<lparr>this = empty_signal synch, world = [(''A'', 1)], futures = [], raised = None,
          trace = [], lost = []\<rparr>
   \<and> emit (empty_signal asynch) 7 [] [(''A'', 1)] =
       \<lparr>this = empty_signal asynch, world = [(''A'', 1)], futures = [], raised = None,
          trace = [], lost = []\<rparr>"
proof -
  have s: "funcs (empty_signal synch) = []" and a: "funcs (empty_signal asynch) = []"
    by (simp_all add: empty_signal_def)
  from emit_no_handlers [OF s, of 7 "[]" "[(''A'', 1)]"]
    emit_no_handlers [OF a, of 7 "[]" "[(''A'', 1)]"] s a
  show ?thesis by simp
qed

subsection \<open>The frame of emit\<close>

text \<open>
  Claim C10. \<^verbatim>\<open>emit\<close> does not modify the signal: a slot acts on the state its closure
  captured, which the signal is not part of, so it calls neither \<^verbatim>\<open>connect\<close> nor
  \<^verbatim>\<open>emit\<close> on this signal; then the signal after an \<^verbatim>\<open>emit\<close> call (the sequence
  of slots, contents and order, and the policy) is the signal before it, under either
  policy, whether the call returns or a slot throws and the call exits early.
\<close>

theorem emit_preserves_signal: "this (emit s a sched w) = s"
  by (rule emit_this)

theorem emit_preserves_signal_witness:
  "raised (emit (boom_signal synch) 7 [] []) = Some ''boom''
   \<and> this (emit (boom_signal synch) 7 [] []) = boom_signal synch
   \<and> funcs (this (emit (boom_signal synch) 7 [] [])) =
       [logger ''A'', thrower ''boom'', logger ''B'']"
  using emit_preserves_signal [of "boom_signal synch" 7 "[]" "[]"]
  by (simp add: boom_synch boom_signal_funcs)

subsection \<open>Failing slots\<close>

text \<open>
  Claim C6. For a signal with the synchronous policy, if the slot at position \<open>k\<close>
  throws during an \<^verbatim>\<open>emit\<close> call (the slots before it returned: the same call on the
  first \<open>k\<close> slots alone returns normally, and the slot at \<open>k\<close> throws \<open>e\<close> in the
  state they leave), then the exception \<open>e\<close> leaves \<^verbatim>\<open>emit\<close>, the calls made are
  those of positions \<open>0, \<dots>, k\<close>, and no slot after position \<open>k\<close> is called.
\<close>

theorem synch_emit_fail_fast:
  assumes "etype s = synch" and "k < length (funcs s)"
    and "raised (emit (s\<lparr>funcs := take k (funcs s)\<rparr>) a sched w) = None"
    and "(funcs s ! k) a (world (emit (s\<lparr>funcs := take k (funcs s)\<rparr>) a sched w)) = Raised e w'"
  shows "raised (emit s a sched w) = Some e
       \<and> world (emit s a sched w) = w'
       \<and> trace (emit s a sched w) = map (\<lambda>i. Invoked i a None) [0 ..< k] @ [Invoked k a (Some e)]
       \<and> (\<forall>j>k. invocations j (trace (emit s a sched w)) = [])"
proof -
  let ?p = "s\<lparr>funcs := take k (funcs s)\<rparr>"
  obtain w0 tr0 r0 where d0: "deliver_in_order (take k (funcs s)) 0 a w = (w0, tr0, r0)"
    by (cases "deliver_in_order (take k (funcs s)) 0 a w") auto
  have p: "emit ?p a sched w =
      \<lparr>this = ?p, world = w0, futures = [], raised = r0, trace = tr0, lost = []\<rparr>"
    using emit_synch [of ?p a sched w] assms(1) d0 by simp
  from assms(3) p have r0: "r0 = None" by simp
  from assms(4) p have h: "(funcs s ! k) a w0 = Raised e w'" by simp
  from deliver_returns [of "take k (funcs s)" 0 a w w0 tr0] d0 r0 assms(2)
  have tr0: "tr0 = map (\<lambda>i. Invoked i a None) [0 ..< k]" by (simp add: min_def)
  have split: "funcs s = take k (funcs s) @ (funcs s ! k) # drop (Suc k) (funcs s)"
    using assms(2) by (rule id_take_nth_drop)
  have "deliver_in_order (funcs s) 0 a w =
      deliver_in_order (take k (funcs s) @ (funcs s ! k) # drop (Suc k) (funcs s)) 0 a w"
    using split by simp
  also have "\<dots> = (w', tr0 @ [Invoked k a (Some e)], Some e)"
    using d0 r0 h assms(2) by (simp add: deliver_append min_def)
  finally have d: "deliver_in_order (funcs s) 0 a w = (w', tr0 @ [Invoked k a (Some e)], Some e)" .
  have e: "emit s a sched w =
      \<lparr>this = s, world = w', futures = [], raised = Some e,
         trace = tr0 @ [Invoked k a (Some e)], lost = []\<rparr>"
    using emit_synch [OF assms(1), of a sched w] d by simp
  have c: "map call_of (tr0 @ [Invoked k a (Some e)]) = map (\<lambda>j. (j, a)) [0 ..< Suc k]"
    by (simp add: tr0 comp_def)
  from c have cm: "mset (map call_of (tr0 @ [Invoked k a (Some e)])) =
      mset (map (\<lambda>j. (j, a)) [0 ..< Suc k])"
    by (simp only:)
  have "\<forall>j>k. invocations j (trace (emit s a sched w)) = []"
  proof (intro allI impI)
    fix j assume "k < j"
    with invocations_upt [OF cm, of j]
    have "invocations j (tr0 @ [Invoked k a (Some e)]) = []" by simp
    then show "invocations j (trace (emit s a sched w)) = []"
      by (subst e) simp
  qed
  with e tr0 show ?thesis by simp
qed

theorem synch_emit_fail_fast_witness:
  "etype (boom_signal synch) = synch \<and> 1 < length (funcs (boom_signal synch))
   \<and> raised (emit ((boom_signal synch)\<lparr>funcs := take 1 (funcs (boom_signal synch))\<rparr>) 7 [] []) = None
   \<and> (funcs (boom_signal synch) ! 1) 7
        (world (emit ((boom_signal synch)\<lparr>funcs := take 1 (funcs (boom_signal synch))\<rparr>) 7 [] []))
       = Raised ''boom'' [(''A'', 7)]
   \<and> raised (emit (boom_signal synch) 7 [] []) = Some ''boom''
   \<and> trace (emit (boom_signal synch) 7 [] []) = [Invoked 0 7 None, Invoked 1 7 (Some ''boom'')]
   \<and> invocations 2 (trace (emit (boom_signal synch) 7 [] [])) = []"
proof -
  have 1: "etype (boom_signal synch) = synch" by (simp add: boom_signal_etype)
  have 2: "1 < length (funcs (boom_signal synch))" by (simp add: boom_signal_funcs)
  have 3: "raised (emit ((boom_signal synch)\<lparr>funcs := take 1 (funcs (boom_signal synch))\<rparr>) 7 [] []) = None"
    by (simp add: emit_synch boom_signal_etype boom_signal_funcs logger_def)
  have 4: "(funcs (boom_signal synch) ! 1) 7
        (world (emit ((boom_signal synch)\<lparr>funcs := take 1 (funcs (boom_signal synch))\<rparr>) 7 [] []))
       = Raised ''boom'' [(''A'', 7)]"
    by (simp add: emit_synch boom_signal_etype boom_signal_funcs logger_def thrower_def)
  from synch_emit_fail_fast [OF 1 2 3 4] 1 2 3 4 show ?thesis
    by (simp add: invocations_def)
qed




subsection \<open>Fan-out\<close>

text \<open>
  Claim C2. A caller makes \<open>K\<close> \<^verbatim>\<open>emit\<close> calls \<open>ps\<close> on a signal, with no
  \<^verbatim>\<open>connect\<close> in between. If every call returns normally to the caller (which an
  asynchronous signal always does), each connected slot has been called exactly \<open>K\<close>
  times: once per \<^verbatim>\<open>emit\<close> call, with the payload of that call, in the order of the
  calls. And in any sequence of calls, with \<^verbatim>\<open>connect\<close> calls and failures in it, a
  slot is never called more often than \<^verbatim>\<open>emit\<close> was called while it was connected:
  the slot at position \<open>i\<close>, not connected during the calls \<open>before\<close>, is called at
  most as often as \<^verbatim>\<open>emit\<close> occurs in the calls \<open>after\<close>. The calls counted are
  calls of the slots themselves: in both cases the state that the slots captured is, after
  the calls, the state reached by calling the connected slots again as the history lists
  them, and every outcome in the history is the outcome of that call.
\<close>

theorem fan_out_complete:
  "(i < length (funcs s) \<and> (etype s = asynch \<or> caught (run (start s w) (emits ps)) = []) \<longrightarrow>
      invocations i (history (run (start s w) (emits ps))) = map fst ps)
   \<and> ((before = [] \<or> length (funcs (target (run (start s w) before))) \<le> i) \<longrightarrow>
      length (invocations i (history (run (start s w) (before @ after)))) \<le> emit_count after)
   \<and> store (run (start s w) (emits ps)) =
       replay (funcs s) (history (run (start s w) (emits ps))) w
   \<and> agrees (funcs s) (history (run (start s w) (emits ps))) w
   \<and> store (run (start s w) (before @ after)) =
       replay (funcs (target (run (start s w) (before @ after))))
         (history (run (start s w) (before @ after))) w
   \<and> agrees (funcs (target (run (start s w) (before @ after))))
       (history (run (start s w) (before @ after))) w"
proof (intro conjI impI)
  assume a: "i < length (funcs s) \<and> (etype s = asynch \<or> caught (run (start s w) (emits ps)) = [])"
  have "invocations i (history (run (start s w) (emits ps))) =
      invocations i (history (start s w)) @ map fst ps"
  proof (rule run_emits_exact)
    show "i < length (funcs (target (start s w)))" using a by (simp add: start_def)
    show "etype (target (start s w)) = asynch \<or> caught (run (start s w) (emits ps)) = []"
      using a by (simp add: start_def)
  qed
  then show "invocations i (history (run (start s w) (emits ps))) = map fst ps"
    by (simp add: start_def invocations_def)
next
  assume b: "before = [] \<or> length (funcs (target (run (start s w) before))) \<le> i"
  have none: "invocations i (history (run (start s w) before)) = []"
  proof (cases "before = []")
    case True
    then show ?thesis by (simp add: run_Nil start_def invocations_def)
  next
    case False
    with b have "length (funcs (target (run (start s w) before))) \<le> i" by simp
    then have "invocations i (history (run (start s w) before)) =
        invocations i (history (start s w))" by (rule run_not_connected)
    then show ?thesis by (simp add: start_def invocations_def)
  qed
  from run_at_most [of i "run (start s w) before" after] none
  show "length (invocations i (history (run (start s w) (before @ after)))) \<le> emit_count after"
    by (simp add: run_append)
next
  have f: "funcs (target (run (start s w) (emits ps))) = funcs s"
    using run_sig [of "start s w" "emits ps"] by (simp add: start_def connected_emits)
  from run_start_replay [of s w "emits ps"]
  show "store (run (start s w) (emits ps)) =
      replay (funcs s) (history (run (start s w) (emits ps))) w"
    and "agrees (funcs s) (history (run (start s w) (emits ps))) w"
    by (simp_all add: f)
next
  from run_start_replay [of s w "before @ after"]
  show "store (run (start s w) (before @ after)) =
      replay (funcs (target (run (start s w) (before @ after))))
        (history (run (start s w) (before @ after))) w"
    and "agrees (funcs (target (run (start s w) (before @ after))))
      (history (run (start s w) (before @ after))) w"
    by simp_all
qed

theorem fan_out_complete_witness:
  "1 < length (funcs (log_signal synch))
   \<and> caught (run (start (log_signal synch) []) (emits [(1, []), (2, [])])) = []
   \<and> invocations 1 (history (run (start (log_signal synch) []) (emits [(1, []), (2, [])])))
       = [1, 2]
   \<and> length (funcs (target (run (start (empty_signal asynch) []) [Emit 5 []]))) \<le> 0
   \<and> invocations 0 (history (run (start (empty_signal asynch) [])
         ([Emit 5 []] @ [Connect (logger ''A''), Emit 6 []]))) = [6]
   \<and> emit_count [Connect (logger ''A''), Emit 6 [] :: (int, string, (string \<times> int) list) call] = 1
   \<and> history (run (start (log_signal synch) []) (emits [(1, []), (2, [])])) =
       [Invoked 0 1 None, Invoked 1 1 None, Invoked 0 2 None, Invoked 1 2 None]
   \<and> store (run (start (log_signal synch) []) (emits [(1, []), (2, [])])) =
       [(''A'', 1), (''B'', 1), (''A'', 2), (''B'', 2)]
   \<and> replay (funcs (log_signal synch))
         [Invoked 0 1 None, Invoked 1 1 None, Invoked 0 2 None, Invoked 1 2 None] [] =
       [(''A'', 1), (''B'', 1), (''A'', 2), (''B'', 2)]
   \<and> store (run (start (empty_signal asynch) [])
         ([Emit 5 []] @ [Connect (logger ''A''), Emit 6 []])) = [(''A'', 6)]"
proof -
  have 4: "history (run (start (log_signal synch) []) (emits [(1, []), (2, [])])) =
       [Invoked 0 1 None, Invoked 1 1 None, Invoked 0 2 None, Invoked 1 2 None]"
    by (simp add: log_run)
  have 5: "replay (funcs (log_signal synch))
         [Invoked 0 1 None, Invoked 1 1 None, Invoked 0 2 None, Invoked 1 2 None] [] =
       [(''A'', 1), (''B'', 1), (''A'', 2), (''B'', 2)]"
    by (simp add: log_signal_funcs logger_def)
  have 1: "1 < length (funcs (log_signal synch))" by (simp add: log_signal_funcs)
  have 2: "caught (run (start (log_signal synch) []) (emits [(1, []), (2, [])])) = []"
    by (simp add: log_run)
  have 3: "length (funcs (target (run (start (empty_signal asynch) []) [Emit 5 []]))) \<le> 0"
    by (simp add: run_sig start_def empty_signal_def)
  from fan_out_complete [of 1 "log_signal synch" "[]" "[(1, []), (2, [])]" "[]" "[]"]
    fan_out_complete [of 0 "empty_signal asynch" "[]" "[]" "[Emit 5 []]"
      "[Connect (logger ''A''), Emit 6 []]"] 1 2 3 4 5
  show ?thesis by (simp add: late_run invocations_def)
qed

subsection \<open>Registration\<close>





end
